theory Spec2Isabelle
  imports Main
begin

section \<open>The asynchronous queue (AsyncQueue) and its environment\<close>

text \<open>
  The class \<^verbatim>\<open>AsyncQueue<T>\<close> keeps three arrays and a flag: \<^verbatim>\<open>messages\<close>,
  \<^verbatim>\<open>pendingResolves\<close>, \<^verbatim>\<open>pendingRejects\<close> and \<^verbatim>\<open>closed\<close>. The entries of the two
  pending arrays are closures created by one call of \<^verbatim>\<open>pop\<close>: \<^verbatim>\<open>wrapperFn\<close> and the
  \<^verbatim>\<open>reject\<close> function of the promise that call returns. The model names every call of
  \<^verbatim>\<open>pop\<close> by a number (the index of its promise in a heap of promises), and stands
  for each closure by the number of the call that created it, so that the identity tests of
  the source (\<^verbatim>\<open>r !== wrapperFn\<close>, \<^verbatim>\<open>indexOf(reject)\<close>) are equality of numbers.

  JavaScript runs each of \<^verbatim>\<open>push\<close>, \<^verbatim>\<open>pop\<close>, \<^verbatim>\<open>close\<close> and \<^verbatim>\<open>abort\<close> to
  completion before anything else runs, so each is one function from state to state.
  What runs later, as a microtask, is the continuation of \<^verbatim>\<open>await\<close> in the loop of
  \<^verbatim>\<open>stream\<close>; it is a step of its own (\<open>resume\<close>).
\<close>

subsection \<open>Data\<close>

text \<open>An \<^verbatim>\<open>Error\<close> object, identified by its message.\<close>

datatype error = Error string

definition QueueClosed :: error where
  "QueueClosed = Error ''Queue is closed''"

definition Cancelled :: error where
  "Cancelled = Error ''Stream stopped''"

datatype 'a promise = Pending | Fulfilled 'a | Rejected error

text \<open>An \<^verbatim>\<open>AbortSignal\<close>: its flag and its \<^verbatim>\<open>'abort'\<close> listeners, each the
  \<^verbatim>\<open>onAbort\<close> closure of a call of \<^verbatim>\<open>pop\<close>.\<close>

record abort_signal =
  aborted :: bool
  listeners :: "nat list"

text \<open>What one call of \<^verbatim>\<open>pop\<close> owns: the promise it returns and the signal its closures
  captured.\<close>

record 'a pop_call =
  promise :: "'a promise"
  abortSignal :: "nat option"

text \<open>The promise of the latest invocation of the \<^verbatim>\<open>async\<close> function \<^verbatim>\<open>loop\<close>: suspended at
  \<^verbatim>\<open>await\<close> on the promise of a pop, returned normally, or rejected because the
  \<^verbatim>\<open>catch\<close> clause threw again.\<close>

datatype loop_state = Awaiting nat | Ended | Failed error

record 'a stream_handle =
  handler :: "'a \<Rightarrow> error option"
  controller :: nat
  loop :: loop_state
  dispatched :: "'a list"

record 'a world =
  messages :: "'a list"
  pendingResolves :: "nat list"
  pendingRejects :: "nat list"
  closed :: bool
  pops :: "'a pop_call list"
  signals :: "abort_signal list"
  streams :: "'a stream_handle list"

definition init :: "'a world" where
  "init = \<lparr>messages = [], pendingResolves = [], pendingRejects = [], closed = False,
           pops = [], signals = [], streams = []\<rparr>"

subsection \<open>Promises and abort signals\<close>

text \<open>\<^verbatim>\<open>resolve\<close> and \<^verbatim>\<open>reject\<close> of a promise act once: on a settled promise they do
  nothing.\<close>

definition settle :: "nat \<Rightarrow> 'a promise \<Rightarrow> 'a world \<Rightarrow> 'a world" where
  "settle p r s =
     (if p < length (pops s) \<and> promise (pops s ! p) = Pending
      then s\<lparr>pops := (pops s)[p := (pops s ! p)\<lparr>promise := r\<rparr>]\<rparr>
      else s)"

definition outcome :: "'a world \<Rightarrow> nat \<Rightarrow> 'a promise" where
  "outcome s p = (if p < length (pops s) then promise (pops s ! p) else Pending)"

definition captured :: "'a world \<Rightarrow> nat \<Rightarrow> nat option" where
  "captured s p = (if p < length (pops s) then abortSignal (pops s ! p) else None)"

definition listeners_of :: "'a world \<Rightarrow> nat \<Rightarrow> nat list" where
  "listeners_of s k = (if k < length (signals s) then listeners (signals s ! k) else [])"

text \<open>\<^verbatim>\<open>abortSignal?.aborted\<close>: false when no signal was given.\<close>

definition signal_aborted :: "'a world \<Rightarrow> nat option \<Rightarrow> bool" where
  "signal_aborted s sg =
     (case sg of None \<Rightarrow> False
      | Some k \<Rightarrow> k < length (signals s) \<and> aborted (signals s ! k))"

text \<open>\<^verbatim>\<open>abortSignal?.addEventListener('abort', onAbort)\<close>: a listener already present
  is not added twice.\<close>

definition addEventListener :: "nat option \<Rightarrow> nat \<Rightarrow> 'a world \<Rightarrow> 'a world" where
  "addEventListener sg p s =
     (case sg of None \<Rightarrow> s
      | Some k \<Rightarrow>
          if k < length (signals s) \<and> p \<notin> set (listeners (signals s ! k))
          then s\<lparr>signals := (signals s)[k := (signals s ! k)
                   \<lparr>listeners := listeners (signals s ! k) @ [p]\<rparr>]\<rparr>
          else s)"

text \<open>\<^verbatim>\<open>abortSignal?.removeEventListener('abort', onAbort)\<close>.\<close>

definition removeEventListener :: "nat option \<Rightarrow> nat \<Rightarrow> 'a world \<Rightarrow> 'a world" where
  "removeEventListener sg p s =
     (case sg of None \<Rightarrow> s
      | Some k \<Rightarrow>
          if k < length (signals s)
          then s\<lparr>signals := (signals s)[k := (signals s ! k)
                   \<lparr>listeners := remove1 p (listeners (signals s ! k))\<rparr>]\<rparr>
          else s)"

subsection \<open>The closures of a pending pop\<close>

text \<open>\<^verbatim>\<open>wrapperFn(msg)\<close> of call \<open>p\<close>: detach the abort listener, take \<^verbatim>\<open>reject\<close> out
  of \<^verbatim>\<open>pendingRejects\<close> (first occurrence), resolve the promise.\<close>

definition wrapperFn :: "nat \<Rightarrow> 'a \<Rightarrow> 'a world \<Rightarrow> 'a world" where
  "wrapperFn p msg s =
     (let s1 = removeEventListener (captured s p) p s;
          s2 = s1\<lparr>pendingRejects := remove1 p (pendingRejects s1)\<rparr>
      in settle p (Fulfilled msg) s2)"

text \<open>\<^verbatim>\<open>onAbort()\<close> of call \<open>p\<close>: filter \<^verbatim>\<open>wrapperFn\<close> out of \<^verbatim>\<open>pendingResolves\<close>, take
  \<^verbatim>\<open>reject\<close> out of \<^verbatim>\<open>pendingRejects\<close>, detach the listener, reject the promise.\<close>

definition onAbort :: "nat \<Rightarrow> 'a world \<Rightarrow> 'a world" where
  "onAbort p s =
     (let s1 = s\<lparr>pendingResolves := filter (\<lambda>r. r \<noteq> p) (pendingResolves s)\<rparr>;
          s2 = s1\<lparr>pendingRejects := remove1 p (pendingRejects s1)\<rparr>;
          s3 = removeEventListener (captured s p) p s2
      in settle p (Rejected Cancelled) s3)"

subsection \<open>push, pop, close, isClosed\<close>

text \<open>\<^verbatim>\<open>push\<close> returns the error it throws, if any, and the state it leaves.\<close>

definition push :: "'a \<Rightarrow> 'a world \<Rightarrow> error option \<times> 'a world" where
  "push msg s =
     (if closed s then (Some QueueClosed, s)
      else case pendingResolves s of
             p # rest \<Rightarrow> (None, wrapperFn p msg (s\<lparr>pendingResolves := rest\<rparr>))
           | [] \<Rightarrow> (None, s\<lparr>messages := messages s @ [msg]\<rparr>))"

text \<open>Every call of \<^verbatim>\<open>pop\<close> returns a promise; \<open>new_pop\<close> allocates it. A
  \<^verbatim>\<open>throw\<close> in the \<^verbatim>\<open>async\<close> function rejects that promise, returning a message
  fulfils it, and the executor of \<^verbatim>\<open>new Promise\<close> runs at once.\<close>

definition new_pop :: "'a promise \<Rightarrow> nat option \<Rightarrow> 'a world \<Rightarrow> 'a world" where
  "new_pop r sg s = s\<lparr>pops := pops s @ [\<lparr>promise = r, abortSignal = sg\<rparr>]\<rparr>"

definition pop :: "nat option \<Rightarrow> 'a world \<Rightarrow> nat \<times> 'a world" where
  "pop sg s =
     (let p = length (pops s) in
      if closed s then (p, new_pop (Rejected QueueClosed) sg s)
      else case messages s of
             m # ms \<Rightarrow> (p, new_pop (Fulfilled m) sg (s\<lparr>messages := ms\<rparr>))
           | [] \<Rightarrow>
               if signal_aborted s sg then (p, new_pop (Rejected Cancelled) sg s)
               else if closed s then (p, new_pop (Rejected QueueClosed) sg s)
               else
                 (let s1 = new_pop Pending sg s;
                      s2 = addEventListener sg p s1;
                      s3 = s2\<lparr>pendingResolves := pendingResolves s2 @ [p]\<rparr>
                  in (p, s3\<lparr>pendingRejects := pendingRejects s3 @ [p]\<rparr>)))"

definition close :: "'a world \<Rightarrow> 'a world" where
  "close s =
     (if closed s then s
      else
        (let rejects = pendingRejects s;
             s1 = s\<lparr>closed := True\<rparr>;
             s2 = s1\<lparr>pendingResolves := []\<rparr>;
             s3 = s2\<lparr>pendingRejects := []\<rparr>;
             s4 = fold (\<lambda>p. settle p (Rejected QueueClosed)) rejects s3
         in s4\<lparr>messages := []\<rparr>))"

definition isClosed :: "'a world \<Rightarrow> bool" where
  "isClosed s = closed s"

subsection \<open>Abort controllers\<close>

text \<open>\<^verbatim>\<open>new AbortController()\<close>: a fresh signal, not aborted, without listeners.\<close>

definition newController :: "'a world \<Rightarrow> nat \<times> 'a world" where
  "newController s =
     (length (signals s), s\<lparr>signals := signals s @ [\<lparr>aborted = False, listeners = []\<rparr>]\<rparr>)"

text \<open>\<^verbatim>\<open>abortController.abort()\<close>: nothing on a signal already aborted; otherwise the
  flag is set and the listeners registered at that moment are called in order, each unless
  it has been removed meanwhile.\<close>

definition abort :: "nat \<Rightarrow> 'a world \<Rightarrow> 'a world" where
  "abort k s =
     (if k < length (signals s) \<and> \<not> aborted (signals s ! k)
      then
        (let ls = listeners (signals s ! k);
             s1 = s\<lparr>signals := (signals s)[k := (signals s ! k)\<lparr>aborted := True\<rparr>]\<rparr>
         in fold (\<lambda>p st. if p \<in> set (listeners_of st k) then onAbort p st else st) ls s1)
      else s)"

subsection \<open>stream\<close>

text \<open>The \<^verbatim>\<open>catch\<close> clause of \<^verbatim>\<open>loop\<close>: an error whose message is
  \<^verbatim>\<open>'Stream stopped'\<close> ends the loop; any other is thrown again, which rejects the
  promise of \<^verbatim>\<open>loop()\<close>, a promise nobody holds.\<close>

fun catch_clause :: "error \<Rightarrow> loop_state" where
  "catch_clause (Error m) = (if m = ''Stream stopped'' then Ended else Failed (Error m))"

text \<open>\<^verbatim>\<open>stream(handler)\<close>: a new controller, then \<^verbatim>\<open>loop()\<close> runs up to its first
  \<^verbatim>\<open>await\<close>, that is, through the call of \<^verbatim>\<open>pop(signal)\<close>. The handler is modelled by
  the error it throws on a message, if any; the messages it was called with are logged in
  \<open>dispatched\<close>.\<close>

definition stream :: "('a \<Rightarrow> error option) \<Rightarrow> 'a world \<Rightarrow> nat \<times> 'a world" where
  "stream h s =
     (let (k, s1) = newController s;
          (p, s2) = pop (Some k) s1
      in (length (streams s2),
          s2\<lparr>streams := streams s2 @
               [\<lparr>handler = h, controller = k, loop = Awaiting p, dispatched = []\<rparr>]\<rparr>))"

definition set_stream :: "nat \<Rightarrow> 'a stream_handle \<Rightarrow> 'a world \<Rightarrow> 'a world" where
  "set_stream i st s = s\<lparr>streams := (streams s)[i := st]\<rparr>"

text \<open>The continuation of \<^verbatim>\<open>await this.pop(signal)\<close> in stream \<open>i\<close>, run once the awaited
  promise is settled: on a value, \<^verbatim>\<open>handler(msg); loop()\<close>; on a rejection, or when the
  handler throws, the \<^verbatim>\<open>catch\<close> clause.\<close>

definition resume :: "nat \<Rightarrow> 'a world \<Rightarrow> 'a world" where
  "resume i s =
     (if i < length (streams s) then
        (let st = streams s ! i in
         case loop st of
           Awaiting p \<Rightarrow>
             (case outcome s p of
                Pending \<Rightarrow> s
              | Fulfilled msg \<Rightarrow>
                  (let st1 = st\<lparr>dispatched := dispatched st @ [msg]\<rparr> in
                   case handler st msg of
                     Some e \<Rightarrow> set_stream i (st1\<lparr>loop := catch_clause e\<rparr>) s
                   | None \<Rightarrow>
                       (let (p', s1) = pop (Some (controller st)) s
                        in set_stream i (st1\<lparr>loop := Awaiting p'\<rparr>) s1))
              | Rejected e \<Rightarrow> set_stream i (st\<lparr>loop := catch_clause e\<rparr>) s)
         | Ended \<Rightarrow> s
         | Failed e \<Rightarrow> s)
      else s)"

text \<open>\<^verbatim>\<open>stop()\<close> of the handle of stream \<open>i\<close>.\<close>

definition stop :: "nat \<Rightarrow> 'a world \<Rightarrow> 'a world" where
  "stop i s = (if i < length (streams s) then abort (controller (streams s ! i)) s else s)"

subsection \<open>Runs\<close>

text \<open>What a program can do to one queue, one call at a time.\<close>

datatype 'a action =
    Push 'a
  | Pop "nat option"
  | Close
  | NewController
  | Abort nat
  | Stream "'a \<Rightarrow> error option"
  | Resume nat
  | Stop nat

fun step :: "'a action \<Rightarrow> 'a world \<Rightarrow> 'a world" where
  "step (Push v) s = snd (push v s)"
| "step (Pop sg) s = snd (pop sg s)"
| "step Close s = close s"
| "step NewController s = snd (newController s)"
| "step (Abort k) s = abort k s"
| "step (Stream h) s = snd (stream h s)"
| "step (Resume i) s = resume i s"
| "step (Stop i) s = stop i s"

fun run :: "'a action list \<Rightarrow> 'a world \<Rightarrow> 'a world" where
  "run [] s = s"
| "run (a # as) s = run as (step a s)"

inductive reachable :: "'a world \<Rightarrow> bool" where
  reachable_init: "reachable init"
| reachable_step: "reachable s \<Longrightarrow> reachable (step a s)"

section \<open>The settings validator (checkSettingsValid)\<close>

subsection \<open>Data\<close>

record circuit_info =
  input_name_to_wire_index :: "(string \<times> nat) list"
  constants :: "(string \<times> string \<times> nat) list"
  output_name_to_wire_index :: "(string \<times> nat) list"

record circuit =
  bristol :: string
  info :: circuit_info

text \<open>\<^verbatim>\<open>MpcParticipantSettings\<close>; the name is optional.\<close>

record participant =
  name :: "string option"
  inputs :: "string list"
  outputs :: "string list"

subsection \<open>JavaScript sets of strings\<close>

text \<open>A \<^verbatim>\<open>Set<string>\<close> is the list of its members in insertion order, without
  repetition; \<^verbatim>\<open>size\<close> is its length and \<^verbatim>\<open>has\<close> is membership.\<close>

definition Set_add :: "string \<Rightarrow> string list \<Rightarrow> string list" where
  "Set_add x xs = (if x \<in> set xs then xs else xs @ [x])"

definition new_Set :: "string list \<Rightarrow> string list" where
  "new_Set ys = fold Set_add ys []"

definition areSetsEqual :: "string list \<Rightarrow> string list \<Rightarrow> bool" where
  "areSetsEqual a b =
     (if length a \<noteq> length b then False else list_all (\<lambda>item. item \<in> set b) a)"

subsection \<open>The checks\<close>

text \<open>\<^verbatim>\<open>i.toString()\<close> of an array index: its decimal digits.\<close>

function toString_nat :: "nat \<Rightarrow> string" where
  "toString_nat n =
     (if n < 10 then [char_of (48 + n)]
      else toString_nat (n div 10) @ [char_of (48 + n mod 10)])"
  by pat_completeness auto
termination
  by (relation "measure id") auto

text \<open>The inner and the outer loop that fill \<^verbatim>\<open>participantInputs\<close>; the first name met
  a second time ends both with an error.\<close>

fun claim_inputs :: "string list \<Rightarrow> string list \<Rightarrow> error + string list" where
  "claim_inputs [] seen = Inr seen"
| "claim_inputs (i # is) seen =
     (if i \<in> set seen then Inl (Error (''Duplicate input: '' @ i))
      else claim_inputs is (Set_add i seen))"

fun collect_inputs :: "participant list \<Rightarrow> string list \<Rightarrow> error + string list" where
  "collect_inputs [] seen = Inr seen"
| "collect_inputs (p # ps) seen =
     (case claim_inputs (inputs p) seen of
        Inl e \<Rightarrow> Inl e
      | Inr seen' \<Rightarrow> collect_inputs ps seen')"

fun check_outputs :: "string list \<Rightarrow> string list \<Rightarrow> error option" where
  "check_outputs [] circuitOutputs = None"
| "check_outputs (out # os) circuitOutputs =
     (if out \<notin> set circuitOutputs
      then Some (Error (''Output '' @ out @ '' is not in the circuit''))
      else check_outputs os circuitOutputs)"

fun check_all_outputs :: "participant list \<Rightarrow> string list \<Rightarrow> error option" where
  "check_all_outputs [] circuitOutputs = None"
| "check_all_outputs (p # ps) circuitOutputs =
     (case check_outputs (outputs p) circuitOutputs of
        Some e \<Rightarrow> Some e
      | None \<Rightarrow> check_all_outputs ps circuitOutputs)"

text \<open>\<^verbatim>\<open>participant.name ?? i.toString()\<close>.\<close>

definition name_or_index :: "participant \<Rightarrow> nat \<Rightarrow> string" where
  "name_or_index p i = (case name p of Some n \<Rightarrow> n | None \<Rightarrow> toString_nat i)"

text \<open>\<^verbatim>\<open>mpcSettings.find(...)\<close>: the first participant that matches, scanning from
  index \<open>i\<close>.\<close>

fun find_participant :: "participant list \<Rightarrow> nat \<Rightarrow> string \<Rightarrow> participant option" where
  "find_participant [] i nm = None"
| "find_participant (p # ps) i nm =
     (if name_or_index p i = nm then Some p else find_participant ps (Suc i) nm)"

definition checkSettingsValid ::
  "circuit \<Rightarrow> participant list \<Rightarrow> string \<Rightarrow> (string \<times> 'v) list \<Rightarrow> error option" where
  "checkSettingsValid circ mpcSettings nm input =
     (let circuitInputs = new_Set (map fst (input_name_to_wire_index (info circ)));
          circuitOutputs = new_Set (map fst (output_name_to_wire_index (info circ)))
      in case collect_inputs mpcSettings [] of
           Inl e \<Rightarrow> Some e
         | Inr participantInputs \<Rightarrow>
             if \<not> areSetsEqual participantInputs circuitInputs
             then Some (Error ''Participant inputs do not match the circuit'')
             else
               (case check_all_outputs mpcSettings circuitOutputs of
                  Some e \<Rightarrow> Some e
                | None \<Rightarrow>
                    (let inputKeys = new_Set (map fst input) in
                     case find_participant mpcSettings 0 nm of
                       None \<Rightarrow> Some (Error (''Could not find participant with name '' @ nm))
                     | Some currentParticipant \<Rightarrow>
                         (let requiredInputs = new_Set (inputs currentParticipant) in
                          if \<not> areSetsEqual inputKeys requiredInputs
                          then Some (Error ''Input keys do not match participant inputs'')
                          else None))))"

section \<open>Scenarios\<close>

text \<open>Scenario D: two pending pops, registered through \<^verbatim>\<open>pop\<close>, and three buffered
  values. \<^verbatim>\<open>messages\<close> is a public field of the class; no sequence of calls of the
  methods leads to a state with both a buffer and waiters, so the buffer is assigned
  directly.\<close>

definition scenario_D :: "nat world" where
  "scenario_D = (run [Pop None, Pop None] init)\<lparr>messages := [1, 2, 3]\<rparr>"

text \<open>A sequence of calls of \<^verbatim>\<open>push\<close>, and a sequence of calls of \<^verbatim>\<open>pop\<close> (one per
  given signal argument) that collects the promises returned.\<close>

fun push_all :: "'a list \<Rightarrow> 'a world \<Rightarrow> 'a world" where
  "push_all [] s = s"
| "push_all (v # vs) s = push_all vs (snd (push v s))"

fun pop_each :: "nat option list \<Rightarrow> 'a world \<Rightarrow> nat list \<times> 'a world" where
  "pop_each [] s = ([], s)"
| "pop_each (sg # sgs) s =
     (let (p, s1) = pop sg s; (ps, s2) = pop_each sgs s1 in (p # ps, s2))"

text \<open>A queue that already holds one buffered value, and a queue with a live stream whose
  first pop has been fulfilled but whose loop has not yet continued; both are open and
  have no pending waiter.\<close>

definition already_buffered :: "nat world" where
  "already_buffered = run [Push 99] init"

definition live_stream :: "nat world" where
  "live_stream = run [Stream (\<lambda>msg. None), Push 5] init"



text \<open>One pending pop with a signal of its own, and the three ways it can end.\<close>

definition one_waiter :: "nat world" where
  "one_waiter = run [NewController, Pop (Some 0)] init"

text \<open>A stream whose handler never throws, then a close of the queue or a stop of the
  stream, then the continuation of the loop.\<close>

definition stream_then_close :: "nat world" where
  "stream_then_close = run [Stream (\<lambda>msg. None), Close, Resume 0] init"

definition stream_then_stop :: "nat world" where
  "stream_then_stop = run [Stream (\<lambda>msg. None), Stop 0, Resume 0] init"

text \<open>The loop of stream \<open>i\<close> has ended silently: its promise is fulfilled, nothing was
  thrown out of it.\<close>

definition ended_silently :: "'a world \<Rightarrow> nat \<Rightarrow> bool" where
  "ended_silently s i \<longleftrightarrow> i < length (streams s) \<and> loop (streams s ! i) = Ended"

text \<open>Scenario E: the circuit and the participants of the repository's test of the
  validator.\<close>

definition aPlusB :: circuit where
  "aPlusB =
     \<lparr>bristol = ''1 3'' @ [CHR 0x0A] @ ''2 1 1'' @ [CHR 0x0A] @ ''1 1'' @ [CHR 0x0A] @
                [CHR 0x0A] @ ''2 1 0 1 2 AAddB'',
      info = \<lparr>input_name_to_wire_index = [(''b'', 1), (''a'', 0)],
               constants = [],
               output_name_to_wire_index = [(''c'', 2)]\<rparr>\<rparr>"

definition alice_and_bob :: "participant list" where
  "alice_and_bob =
     [\<lparr>name = Some ''alice'', inputs = [''a''], outputs = [''c'']\<rparr>,
      \<lparr>name = Some ''bob'', inputs = [''b''], outputs = [''c'']\<rparr>]"

text \<open>A circuit with the single input \<^verbatim>\<open>a\<close> and a single participant who lists it
  twice.\<close>

definition only_a :: circuit where
  "only_a =
     \<lparr>bristol = [],
      info = \<lparr>input_name_to_wire_index = [(''a'', 0)], constants = [],
               output_name_to_wire_index = [(''c'', 1)]\<rparr>\<rparr>"

definition alice_twice :: "participant list" where
  "alice_twice = [\<lparr>name = Some ''alice'', inputs = [''a'', ''a''], outputs = [''c'']\<rparr>]"

section \<open>The five conditions of the validator\<close>

text \<open>The conditions as the specification words them. (1): an input name is claimed by
  more than one participant.\<close>

definition claimed_by_several :: "participant list \<Rightarrow> bool" where
  "claimed_by_several ps \<longleftrightarrow>
     (\<exists>i < length ps. \<exists>j < length ps.
        i \<noteq> j \<and> set (inputs (ps ! i)) \<inter> set (inputs (ps ! j)) \<noteq> {})"

text \<open>(2): the union of the participants' input names differs from the circuit's input
  names.\<close>

definition inputs_differ :: "circuit \<Rightarrow> participant list \<Rightarrow> bool" where
  "inputs_differ circ ps \<longleftrightarrow>
     (\<Union>p \<in> set ps. set (inputs p)) \<noteq> set (map fst (input_name_to_wire_index (info circ)))"

text \<open>(3): some output name of a participant is not an output name of the circuit.\<close>

definition output_unknown :: "circuit \<Rightarrow> participant list \<Rightarrow> bool" where
  "output_unknown circ ps \<longleftrightarrow>
     (\<exists>p \<in> set ps. \<exists>out \<in> set (outputs p).
        out \<notin> set (map fst (output_name_to_wire_index (info circ))))"

text \<open>(4): the caller's name matches no participant.\<close>

definition caller_unknown :: "participant list \<Rightarrow> string \<Rightarrow> bool" where
  "caller_unknown ps nm \<longleftrightarrow> \<not> (\<exists>i < length ps. name_or_index (ps ! i) i = nm)"

text \<open>(5): the keys of the supplied input differ from the input names of the calling
  participant, the first one whose name matches.\<close>

definition keys_differ :: "participant list \<Rightarrow> string \<Rightarrow> (string \<times> 'v) list \<Rightarrow> bool" where
  "keys_differ ps nm input \<longleftrightarrow>
     (\<exists>i < length ps.
        name_or_index (ps ! i) i = nm \<and> (\<forall>j < i. name_or_index (ps ! j) j \<noteq> nm) \<and>
        set (map fst input) \<noteq> set (inputs (ps ! i)))"

definition spec_rejects ::
  "circuit \<Rightarrow> participant list \<Rightarrow> string \<Rightarrow> (string \<times> 'v) list \<Rightarrow> bool" where
  "spec_rejects circ ps nm input \<longleftrightarrow>
     claimed_by_several ps \<or> inputs_differ circ ps \<or> output_unknown circ ps \<or>
     caller_unknown ps nm \<or> keys_differ ps nm input"

text \<open>What the code tests in place of (1): an input name occurs twice in the input lists of
  the participants taken together, be it in two lists or twice in one.\<close>

definition listed_twice :: "participant list \<Rightarrow> bool" where
  "listed_twice ps \<longleftrightarrow> \<not> distinct (concat (map inputs ps))"

section \<open>Invariants of the reachable states\<close>


text \<open>Every listener on signal \<open>k\<close> is the \<^verbatim>\<open>onAbort\<close> of a call that captured \<open>k\<close>, and
  is registered once.\<close>

definition listener_inv :: "'a world \<Rightarrow> bool" where
  "listener_inv s \<longleftrightarrow>
     (\<forall>k < length (signals s).
        distinct (listeners_of s k) \<and>
        (\<forall>p \<in> set (listeners_of s k). p < length (pops s) \<and> captured s p = Some k))"

section \<open>Basic facts about the queue operations\<close>

lemma fold_preserves:
  assumes "\<And>x s. P s \<Longrightarrow> P (f x s)" and "P s"
  shows "P (fold f xs s)"
  using assms(2) by (induction xs arbitrary: s) (simp_all add: assms(1))


lemma outcome_update [simp]:
  "outcome (s\<lparr>messages := m\<rparr>) = outcome s"
  "outcome (s\<lparr>pendingResolves := ps\<rparr>) = outcome s"
  "outcome (s\<lparr>pendingRejects := ps\<rparr>) = outcome s"
  "outcome (s\<lparr>closed := c\<rparr>) = outcome s"
  "outcome (s\<lparr>signals := sgs\<rparr>) = outcome s"
  "outcome (s\<lparr>streams := sts\<rparr>) = outcome s"
  by (simp_all add: outcome_def fun_eq_iff)

lemma captured_update [simp]:
  "captured (s\<lparr>messages := m\<rparr>) = captured s"
  "captured (s\<lparr>pendingResolves := ps\<rparr>) = captured s"
  "captured (s\<lparr>pendingRejects := ps\<rparr>) = captured s"
  "captured (s\<lparr>closed := c\<rparr>) = captured s"
  "captured (s\<lparr>signals := sgs\<rparr>) = captured s"
  "captured (s\<lparr>streams := sts\<rparr>) = captured s"
  by (simp_all add: captured_def fun_eq_iff)

lemma listeners_of_update [simp]:
  "listeners_of (s\<lparr>messages := m\<rparr>) = listeners_of s"
  "listeners_of (s\<lparr>pendingResolves := ps\<rparr>) = listeners_of s"
  "listeners_of (s\<lparr>pendingRejects := ps\<rparr>) = listeners_of s"
  "listeners_of (s\<lparr>closed := c\<rparr>) = listeners_of s"
  "listeners_of (s\<lparr>pops := pp\<rparr>) = listeners_of s"
  "listeners_of (s\<lparr>streams := sts\<rparr>) = listeners_of s"
  by (simp_all add: listeners_of_def fun_eq_iff)

lemma settle_fields [simp]:
  "messages (settle p r s) = messages s"
  "pendingResolves (settle p r s) = pendingResolves s"
  "pendingRejects (settle p r s) = pendingRejects s"
  "closed (settle p r s) = closed s"
  "signals (settle p r s) = signals s"
  "streams (settle p r s) = streams s"
  "length (pops (settle p r s)) = length (pops s)"
  by (simp_all add: settle_def)

lemma outcome_settle:
  "outcome (settle p r s) q =
     (if q = p \<and> p < length (pops s) \<and> outcome s p = Pending then r else outcome s q)"
  by (simp add: settle_def outcome_def nth_list_update)

lemma captured_settle [simp]: "captured (settle p r s) q = captured s q"
  by (simp add: settle_def captured_def nth_list_update)

lemma listeners_of_settle [simp]: "listeners_of (settle p r s) k = listeners_of s k"
  by (simp add: listeners_of_def)

lemma removeEventListener_fields [simp]:
  "messages (removeEventListener sg p s) = messages s"
  "pendingResolves (removeEventListener sg p s) = pendingResolves s"
  "pendingRejects (removeEventListener sg p s) = pendingRejects s"
  "closed (removeEventListener sg p s) = closed s"
  "pops (removeEventListener sg p s) = pops s"
  "streams (removeEventListener sg p s) = streams s"
  "length (signals (removeEventListener sg p s)) = length (signals s)"
  by (simp_all add: removeEventListener_def split: option.splits)

lemma addEventListener_fields [simp]:
  "messages (addEventListener sg p s) = messages s"
  "pendingResolves (addEventListener sg p s) = pendingResolves s"
  "pendingRejects (addEventListener sg p s) = pendingRejects s"
  "closed (addEventListener sg p s) = closed s"
  "pops (addEventListener sg p s) = pops s"
  "streams (addEventListener sg p s) = streams s"
  "length (signals (addEventListener sg p s)) = length (signals s)"
  by (simp_all add: addEventListener_def split: option.splits)

lemma outcome_removeEventListener [simp]:
  "outcome (removeEventListener sg p s) q = outcome s q"
  by (simp add: outcome_def)

lemma outcome_addEventListener [simp]:
  "outcome (addEventListener sg p s) q = outcome s q"
  by (simp add: outcome_def)

lemma captured_removeEventListener [simp]:
  "captured (removeEventListener sg p s) q = captured s q"
  by (simp add: captured_def)

lemma captured_addEventListener [simp]:
  "captured (addEventListener sg p s) q = captured s q"
  by (simp add: captured_def)

lemma wrapperFn_fields [simp]:
  "messages (wrapperFn p v s) = messages s"
  "pendingResolves (wrapperFn p v s) = pendingResolves s"
  "pendingRejects (wrapperFn p v s) = remove1 p (pendingRejects s)"
  "closed (wrapperFn p v s) = closed s"
  "streams (wrapperFn p v s) = streams s"
  "length (pops (wrapperFn p v s)) = length (pops s)"
  "length (signals (wrapperFn p v s)) = length (signals s)"
  by (simp_all add: wrapperFn_def Let_def)

lemma onAbort_fields [simp]:
  "messages (onAbort p s) = messages s"
  "pendingResolves (onAbort p s) = filter (\<lambda>r. r \<noteq> p) (pendingResolves s)"
  "pendingRejects (onAbort p s) = remove1 p (pendingRejects s)"
  "closed (onAbort p s) = closed s"
  "streams (onAbort p s) = streams s"
  "length (pops (onAbort p s)) = length (pops s)"
  "length (signals (onAbort p s)) = length (signals s)"
  by (simp_all add: onAbort_def Let_def)


lemma outcome_onAbort:
  "outcome (onAbort p s) q =
     (if q = p \<and> p < length (pops s) \<and> outcome s p = Pending then Rejected Cancelled
      else outcome s q)"
  by (simp add: onAbort_def Let_def outcome_settle)

lemma new_pop_fields [simp]:
  "messages (new_pop r sg s) = messages s"
  "pendingResolves (new_pop r sg s) = pendingResolves s"
  "pendingRejects (new_pop r sg s) = pendingRejects s"
  "closed (new_pop r sg s) = closed s"
  "signals (new_pop r sg s) = signals s"
  "streams (new_pop r sg s) = streams s"
  "length (pops (new_pop r sg s)) = Suc (length (pops s))"
  by (simp_all add: new_pop_def)

lemma outcome_new_pop:
  "outcome (new_pop r sg s) q =
     (if q = length (pops s) then r else outcome s q)"
  by (auto simp: new_pop_def outcome_def nth_append)


lemma listeners_of_new_pop [simp]: "listeners_of (new_pop r sg s) = listeners_of s"
  by (simp add: new_pop_def)

lemma pop_closed:
  "closed s \<Longrightarrow> pop sg s = (length (pops s), new_pop (Rejected QueueClosed) sg s)"
  by (simp add: pop_def)

lemma closed_pop [simp]: "closed (snd (pop sg s)) = closed s"
  by (simp add: pop_def Let_def split: list.splits)

lemma streams_pop [simp]: "streams (snd (pop sg s)) = streams s"
  by (simp add: pop_def Let_def split: list.splits)

lemma closed_push [simp]: "closed (snd (push v s)) = closed s"
  by (simp add: push_def split: list.splits)

lemma closed_close [simp]: "closed (close s)"
  by (simp add: close_def Let_def fold_preserves [where P = "\<lambda>s. closed s"])

lemma abort_preserves:
  assumes "\<And>p st. P st \<Longrightarrow> P (onAbort p st)"
    and "\<And>sgs. P s \<Longrightarrow> P (s\<lparr>signals := sgs\<rparr>)"
    and "P s"
  shows "P (abort k s)"
  unfolding abort_def Let_def
  by (simp add: assms fold_preserves [where P = P])

lemma closed_abort [simp]: "closed (abort k s) = closed s"
  by (rule abort_preserves [where P = "\<lambda>st. closed st = closed s"]) simp_all

lemma messages_abort [simp]: "messages (abort k s) = messages s"
  by (rule abort_preserves [where P = "\<lambda>st. messages st = messages s"]) simp_all

lemma streams_abort [simp]: "streams (abort k s) = streams s"
  by (rule abort_preserves [where P = "\<lambda>st. streams st = streams s"]) simp_all

lemma length_pops_abort [simp]: "length (pops (abort k s)) = length (pops s)"
  by (rule abort_preserves [where P = "\<lambda>st. length (pops st) = length (pops s)"]) simp_all

lemma fulfilled_abort:
  "outcome (abort k s) q = Fulfilled v \<longleftrightarrow> outcome s q = Fulfilled v"
  by (rule abort_preserves
        [where P = "\<lambda>st. outcome st q = Fulfilled v \<longleftrightarrow> outcome s q = Fulfilled v"])
     (auto simp: outcome_onAbort)

lemma set_stream_fields [simp]:
  "messages (set_stream i st s) = messages s"
  "pendingResolves (set_stream i st s) = pendingResolves s"
  "pendingRejects (set_stream i st s) = pendingRejects s"
  "closed (set_stream i st s) = closed s"
  "pops (set_stream i st s) = pops s"
  "signals (set_stream i st s) = signals s"
  "outcome (set_stream i st s) = outcome s"
  by (simp_all add: set_stream_def)

lemma closed_resume [simp]: "closed (resume i s) = closed s"
  by (simp add: resume_def Let_def split_beta
           split: loop_state.splits promise.splits option.splits)

lemma closed_newController [simp]: "closed (snd (newController s)) = closed s"
  by (simp add: newController_def)

lemma closed_stream [simp]: "closed (snd (stream h s)) = closed s"
  by (simp add: stream_def split_beta)

lemma closed_stop [simp]: "closed (stop i s) = closed s"
  by (simp add: stop_def)

lemma closed_step: "closed (step a s) = (closed s \<or> a = Close)"
  by (cases a) simp_all

lemma closed_run: "closed s \<Longrightarrow> closed (run as s)"
  by (induction as arbitrary: s) (simp_all add: closed_step)

lemma close_closed [simp]: "closed s \<Longrightarrow> close s = s"
  by (simp add: close_def)

lemma outcome_fold_settle:
  "outcome (fold (\<lambda>p. settle p r) ps s) q =
     (if q \<in> set ps \<and> q < length (pops s) \<and> outcome s q = Pending then r else outcome s q)"
proof (induction ps arbitrary: s)
  case Nil
  show ?case by simp
next
  case (Cons p ps)
  show ?case
    by (simp add: Cons.IH outcome_settle) (auto simp: outcome_def)
qed

lemma fold_settle_fields [simp]:
  "messages (fold (\<lambda>p. settle p r) ps s) = messages s"
  "pendingResolves (fold (\<lambda>p. settle p r) ps s) = pendingResolves s"
  "pendingRejects (fold (\<lambda>p. settle p r) ps s) = pendingRejects s"
  "closed (fold (\<lambda>p. settle p r) ps s) = closed s"
  "signals (fold (\<lambda>p. settle p r) ps s) = signals s"
  "streams (fold (\<lambda>p. settle p r) ps s) = streams s"
  "length (pops (fold (\<lambda>p. settle p r) ps s)) = length (pops s)"
  by (induction ps arbitrary: s) simp_all

lemma close_open_fields:
  assumes "\<not> closed s"
  shows "messages (close s) = []" "pendingResolves (close s) = []"
    "pendingRejects (close s) = []" "signals (close s) = signals s"
    "streams (close s) = streams s" "length (pops (close s)) = length (pops s)"
  using assms by (simp_all add: close_def Let_def)

lemma outcome_close:
  "\<not> closed s \<Longrightarrow>
   outcome (close s) q =
     (if q \<in> set (pendingRejects s) \<and> q < length (pops s) \<and> outcome s q = Pending
      then Rejected QueueClosed else outcome s q)"
  by (simp add: close_def Let_def outcome_fold_settle)

lemma push_closed: "closed s \<Longrightarrow> push v s = (Some QueueClosed, s)"
  by (simp add: push_def)

lemma newController_fields [simp]:
  "messages (snd (newController s)) = messages s"
  "pendingResolves (snd (newController s)) = pendingResolves s"
  "pendingRejects (snd (newController s)) = pendingRejects s"
  "pops (snd (newController s)) = pops s"
  "streams (snd (newController s)) = streams s"
  "outcome (snd (newController s)) = outcome s"
  "fst (newController s) = length (signals s)"
  by (simp_all add: newController_def)

text \<open>On a closed queue no step delivers anything.\<close>

lemma closed_step_messages: "closed s \<Longrightarrow> messages (step a s) = messages s"
  by (cases a)
     (simp_all add: push_closed pop_closed stream_def resume_def stop_def split_beta Let_def
        split: loop_state.splits promise.splits option.splits)

lemma closed_step_fulfilled:
  "closed s \<Longrightarrow> outcome (step a s) q = Fulfilled v \<Longrightarrow> outcome s q = Fulfilled v"
  by (cases a)
     (auto simp: push_closed pop_closed stream_def resume_def stop_def split_beta Let_def
        outcome_new_pop fulfilled_abort
        split: loop_state.splits promise.splits option.splits if_splits)

lemma closed_run_messages: "closed s \<Longrightarrow> messages (run as s) = messages s"
  by (induction as arbitrary: s) (simp_all add: closed_step closed_step_messages)

lemma closed_run_fulfilled:
  "closed s \<Longrightarrow> outcome (run as s) q = Fulfilled v \<Longrightarrow> outcome s q = Fulfilled v"
proof (induction as arbitrary: s)
  case Nil
  then show ?case by simp
next
  case (Cons a as)
  from Cons.prems(1) have "closed (step a s)" by (simp add: closed_step)
  with Cons have "outcome (step a s) q = Fulfilled v" by simp
  with Cons.prems(1) show ?case by (rule closed_step_fulfilled)
qed

lemma pop_buffered:
  "\<not> closed s \<Longrightarrow> messages s = m # ms \<Longrightarrow>
   pop sg s = (length (pops s), new_pop (Fulfilled m) sg (s\<lparr>messages := ms\<rparr>))"
  by (simp add: pop_def)

lemma length_pops_pop [simp]: "length (pops (snd (pop sg s))) = Suc (length (pops s))"
  by (simp add: pop_def Let_def split: list.splits)

lemma fst_pop [simp]: "fst (pop sg s) = length (pops s)"
  by (simp add: pop_def Let_def split: list.splits)

lemma outcome_pop_old:
  "q < length (pops s) \<Longrightarrow> outcome (snd (pop sg s)) q = outcome s q"
  by (simp add: pop_def Let_def outcome_new_pop split: list.splits)

lemma push_buffers:
  "\<not> closed s \<Longrightarrow> pendingResolves s = [] \<Longrightarrow>
   push v s = (None, s\<lparr>messages := messages s @ [v]\<rparr>)"
  by (simp add: push_def)

lemma push_all_buffers:
  "\<not> closed s \<Longrightarrow> pendingResolves s = [] \<Longrightarrow>
   push_all vs s = s\<lparr>messages := messages s @ vs\<rparr>"
  by (induction vs arbitrary: s) (simp_all add: push_buffers)

lemma outcome_pop_each_old:
  "q < length (pops s) \<Longrightarrow> outcome (snd (pop_each sgs s)) q = outcome s q"
proof (induction sgs arbitrary: s)
  case Nil
  show ?case by simp
next
  case (Cons sg sgs)
  have "q < length (pops (snd (pop sg s)))" using Cons.prems by simp
  from Cons.IH [OF this] Cons.prems show ?case
    by (simp add: split_beta outcome_pop_old)
qed

lemma fst_pop_each:
  "length (fst (pop_each sgs s)) = length sgs \<and>
   (\<forall>i < length sgs. fst (pop_each sgs s) ! i = length (pops s) + i)"
  by (induction sgs arbitrary: s) (auto simp: split_beta nth_Cons split: nat.splits)

lemma pop_each_buffered:
  "\<not> closed s \<Longrightarrow> messages s = ms @ rest \<Longrightarrow> length sgs = length ms \<Longrightarrow>
   (\<forall>i < length ms. outcome (snd (pop_each sgs s)) (length (pops s) + i) = Fulfilled (ms ! i)) \<and>
   messages (snd (pop_each sgs s)) = rest"
proof (induction sgs arbitrary: s ms)
  case Nil
  then show ?case by simp
next
  case (Cons sg sgs)
  then obtain m ms' where ms: "ms = m # ms'" by (cases ms) auto
  let ?s1 = "new_pop (Fulfilled m) sg (s\<lparr>messages := ms' @ rest\<rparr>)"
  have p: "pop sg s = (length (pops s), ?s1)"
    using Cons.prems ms by (simp add: pop_buffered)
  have "\<not> closed ?s1" "messages ?s1 = ms' @ rest" "length sgs = length ms'"
    using Cons.prems ms by simp_all
  note ih = Cons.IH [OF this]
  have s': "snd (pop_each (sg # sgs) s) = snd (pop_each sgs ?s1)"
    by (simp add: p split_beta)
  have first: "outcome (snd (pop_each sgs ?s1)) (length (pops s)) = Fulfilled m"
    by (simp add: outcome_pop_each_old outcome_new_pop)
  have "outcome (snd (pop_each sgs ?s1)) (length (pops s) + i) = Fulfilled (ms ! i)"
    if "i < length ms" for i
  proof (cases i)
    case 0
    with first ms show ?thesis by simp
  next
    case (Suc j)
    with that ms have "j < length ms'" by simp
    with ih have "outcome (snd (pop_each sgs ?s1)) (length (pops ?s1) + j) = Fulfilled (ms' ! j)"
      by blast
    with Suc ms show ?thesis by simp
  qed
  with ih show ?case unfolding s' by blast
qed

subsection \<open>The invariants hold in every reachable state\<close>















lemma reachable_run: "reachable s \<Longrightarrow> reachable (run as s)"
  by (induction as arbitrary: s) (simp_all add: reachable_step)






lemma listener_inv_update [simp]:
  "listener_inv (s\<lparr>messages := m\<rparr>) = listener_inv s"
  "listener_inv (s\<lparr>pendingResolves := ps\<rparr>) = listener_inv s"
  "listener_inv (s\<lparr>pendingRejects := ps\<rparr>) = listener_inv s"
  "listener_inv (s\<lparr>closed := c\<rparr>) = listener_inv s"
  "listener_inv (s\<lparr>streams := sts\<rparr>) = listener_inv s"
  by (simp_all add: listener_inv_def)

lemma listener_inv_settle [simp]: "listener_inv (settle p r s) = listener_inv s"
  by (simp add: listener_inv_def)









lemma listeners_of_flag [simp]:
  "listeners_of (s\<lparr>signals := (signals s)[k := (signals s ! k)\<lparr>aborted := b\<rparr>]\<rparr>) j
     = listeners_of s j"
  by (cases "j = k") (simp_all add: listeners_of_def)








lemma captured_onAbort [simp]: "captured (onAbort p s) q = captured s q"
  by (simp add: onAbort_def Let_def)



subsection \<open>A finished stream stays finished\<close>

lemma streams_push [simp]: "streams (snd (push v s)) = streams s"
  by (simp add: push_def split: list.splits)

lemma streams_close [simp]: "streams (close s) = streams s"
  by (cases "closed s") (simp_all add: close_open_fields)

lemma streams_stream: "streams (snd (stream h s)) = streams s @
    [\<lparr>handler = h, controller = length (signals s), loop = Awaiting (length (pops s)),
      dispatched = []\<rparr>]"
  by (simp add: stream_def split_beta newController_def)

lemma finished_resume:
  assumes "i < length (streams s)"
    and "loop (streams s ! i) = Ended \<or> (\<exists>e. loop (streams s ! i) = Failed e)"
  shows "length (streams (resume j s)) = length (streams s) \<and>
         streams (resume j s) ! i = streams s ! i"
proof (cases "j = i")
  case True
  with assms show ?thesis by (auto simp: resume_def)
next
  case False
  then show ?thesis
    by (simp add: resume_def Let_def split_beta set_stream_def
          split: loop_state.splits promise.splits option.splits)
qed

lemma finished_step:
  assumes "i < length (streams s)"
    and "loop (streams s ! i) = Ended \<or> (\<exists>e. loop (streams s ! i) = Failed e)"
  shows "i < length (streams (step a s)) \<and> streams (step a s) ! i = streams s ! i"
proof (cases a)
  case (Stream h)
  with assms(1) show ?thesis by (simp add: streams_stream nth_append)
next
  case (Resume j)
  with finished_resume [OF assms, of j] assms(1) show ?thesis by simp
qed (use assms(1) in \<open>simp_all add: stop_def\<close>)

lemma finished_run:
  assumes "i < length (streams s)"
    and "loop (streams s ! i) = Ended \<or> (\<exists>e. loop (streams s ! i) = Failed e)"
  shows "i < length (streams (run as s)) \<and> streams (run as s) ! i = streams s ! i"
  using assms
proof (induction as arbitrary: s)
  case Nil
  then show ?case by simp
next
  case (Cons a as)
  from finished_step [OF Cons.prems, of a]
  have 1: "i < length (streams (step a s))" and 2: "streams (step a s) ! i = streams s ! i"
    by simp_all
  from Cons.prems(2) 2
  have "loop (streams (step a s) ! i) = Ended \<or> (\<exists>e. loop (streams (step a s) ! i) = Failed e)"
    by simp
  from Cons.IH [OF 1 this] 2 show ?case by simp
qed

section \<open>Basic facts about the validator\<close>

lemma claim_inputs_spec:
  "distinct seen \<Longrightarrow>
   (case claim_inputs xs seen of
      Inl e \<Rightarrow> \<not> (distinct xs \<and> set xs \<inter> set seen = {})
    | Inr r \<Rightarrow> distinct xs \<and> set xs \<inter> set seen = {} \<and> set r = set seen \<union> set xs \<and> distinct r)"
proof (induction xs arbitrary: seen)
  case Nil
  then show ?case by simp
next
  case (Cons x xs)
  show ?case
  proof (cases "x \<in> set seen")
    case True
    then show ?thesis by simp
  next
    case False
    with Cons.prems have "distinct (Set_add x seen)" and s: "set (Set_add x seen) = insert x (set seen)"
      by (simp_all add: Set_add_def)
    from Cons.IH [OF this(1)] False s show ?thesis
      by (auto split: sum.splits)
  qed
qed

lemma collect_inputs_spec:
  "distinct seen \<Longrightarrow>
   (case collect_inputs ps seen of
      Inl e \<Rightarrow> \<not> (distinct (concat (map inputs ps)) \<and> set (concat (map inputs ps)) \<inter> set seen = {})
    | Inr r \<Rightarrow> distinct (concat (map inputs ps)) \<and>
               set (concat (map inputs ps)) \<inter> set seen = {} \<and>
               set r = set seen \<union> set (concat (map inputs ps)) \<and> distinct r)"
proof (induction ps arbitrary: seen)
  case Nil
  then show ?case by simp
next
  case (Cons p ps)
  show ?case
  proof (cases "claim_inputs (inputs p) seen")
    case (Inl e)
    with claim_inputs_spec [OF Cons.prems, of "inputs p"] show ?thesis by auto
  next
    case (Inr seen')
    with claim_inputs_spec [OF Cons.prems, of "inputs p"]
    have 1: "distinct (inputs p)" "set (inputs p) \<inter> set seen = {}"
      "set seen' = set seen \<union> set (inputs p)" "distinct seen'" by simp_all
    from Cons.IH [OF 1(4)] Inr 1 show ?thesis
      by (auto split: sum.splits)
  qed
qed

lemma fold_Set_add:
  "distinct acc \<Longrightarrow> set (fold Set_add ys acc) = set acc \<union> set ys \<and> distinct (fold Set_add ys acc)"
  by (induction ys arbitrary: acc) (auto simp: Set_add_def)

lemma new_Set_spec: "set (new_Set ys) = set ys" "distinct (new_Set ys)"
  using fold_Set_add [of "[]" ys] by (simp_all add: new_Set_def)

lemma areSetsEqual_spec:
  assumes "distinct a" and "distinct b"
  shows "areSetsEqual a b \<longleftrightarrow> set a = set b"
proof
  assume "areSetsEqual a b"
  then have l: "length a = length b" and sub: "set a \<subseteq> set b"
    by (auto simp: areSetsEqual_def list_all_iff split: if_splits)
  from l assms have "card (set a) = card (set b)" by (simp add: distinct_card)
  with sub show "set a = set b" by (simp add: card_subset_eq)
next
  assume eq: "set a = set b"
  with assms have "length a = length b" by (metis distinct_card)
  with eq show "areSetsEqual a b" by (simp add: areSetsEqual_def list_all_iff)
qed

lemma check_outputs_spec: "check_outputs os co = None \<longleftrightarrow> set os \<subseteq> set co"
  by (induction os) auto

lemma check_all_outputs_spec:
  "check_all_outputs ps co = None \<longleftrightarrow> (\<forall>p \<in> set ps. set (outputs p) \<subseteq> set co)"
proof (induction ps)
  case Nil
  show ?case by simp
next
  case (Cons p ps)
  show ?case
    using Cons.IH check_outputs_spec [of "outputs p" co]
    by (cases "check_outputs (outputs p) co") auto
qed

lemma find_participant_None:
  "find_participant ps i nm = None \<longleftrightarrow> (\<forall>j < length ps. name_or_index (ps ! j) (i + j) \<noteq> nm)"
proof (induction ps arbitrary: i)
  case Nil
  show ?case by simp
next
  case (Cons p ps)
  show ?case
    by (auto simp: Cons.IH nth_Cons less_Suc_eq_0_disj split: nat.splits)
qed

lemma find_participant_Some:
  "find_participant ps i nm = Some p \<longleftrightarrow>
     (\<exists>j < length ps. p = ps ! j \<and> name_or_index (ps ! j) (i + j) = nm \<and>
        (\<forall>j' < j. name_or_index (ps ! j') (i + j') \<noteq> nm))"
proof (induction ps arbitrary: i)
  case Nil
  show ?case by simp
next
  case (Cons q ps)
  show ?case
  proof (cases "name_or_index q i = nm")
    case True
    show ?thesis
    proof
      assume "find_participant (q # ps) i nm = Some p"
      with True have "p = q" by simp
      with True show "\<exists>j<length (q # ps). p = (q # ps) ! j \<and>
          name_or_index ((q # ps) ! j) (i + j) = nm \<and>
          (\<forall>j'<j. name_or_index ((q # ps) ! j') (i + j') \<noteq> nm)"
        by (intro exI [of _ 0]) simp
    next
      assume "\<exists>j<length (q # ps). p = (q # ps) ! j \<and>
          name_or_index ((q # ps) ! j) (i + j) = nm \<and>
          (\<forall>j'<j. name_or_index ((q # ps) ! j') (i + j') \<noteq> nm)"
      then obtain j where j: "j < length (q # ps)" "p = (q # ps) ! j"
        "\<forall>j'<j. name_or_index ((q # ps) ! j') (i + j') \<noteq> nm" by blast
      have "j = 0"
      proof (rule ccontr)
        assume "j \<noteq> 0"
        then have "0 < j" by simp
        with j(3) have "name_or_index ((q # ps) ! 0) (i + 0) \<noteq> nm" by blast
        with True show False by simp
      qed
      with j True show "find_participant (q # ps) i nm = Some p" by simp
    qed
  next
    case False
    have "find_participant (q # ps) i nm = Some p \<longleftrightarrow> find_participant ps (Suc i) nm = Some p"
      using False by simp
    also have "\<dots> \<longleftrightarrow> (\<exists>j < length ps. p = ps ! j \<and> name_or_index (ps ! j) (Suc i + j) = nm \<and>
        (\<forall>j' < j. name_or_index (ps ! j') (Suc i + j') \<noteq> nm))"
      by (rule Cons.IH)
    also have "\<dots> \<longleftrightarrow> (\<exists>j<length (q # ps). p = (q # ps) ! j \<and>
          name_or_index ((q # ps) ! j) (i + j) = nm \<and>
          (\<forall>j'<j. name_or_index ((q # ps) ! j') (i + j') \<noteq> nm))" (is "?L \<longleftrightarrow> ?R")
    proof
      assume ?L
      then obtain j where j: "j < length ps" "p = ps ! j" "name_or_index (ps ! j) (Suc i + j) = nm"
        "\<forall>j' < j. name_or_index (ps ! j') (Suc i + j') \<noteq> nm" by blast
      have "\<forall>j'<Suc j. name_or_index ((q # ps) ! j') (i + j') \<noteq> nm"
      proof (intro allI impI)
        fix j' assume "j' < Suc j"
        then show "name_or_index ((q # ps) ! j') (i + j') \<noteq> nm"
          using False j(4) by (cases j') auto
      qed
      with j show ?R by (intro exI [of _ "Suc j"]) simp
    next
      assume ?R
      then obtain j where j: "j < length (q # ps)" "p = (q # ps) ! j"
        "name_or_index ((q # ps) ! j) (i + j) = nm"
        "\<forall>j'<j. name_or_index ((q # ps) ! j') (i + j') \<noteq> nm" by blast
      from j(3) False obtain j0 where j0: "j = Suc j0" by (cases j) auto
      have "\<forall>j' < j0. name_or_index (ps ! j') (Suc i + j') \<noteq> nm"
      proof (intro allI impI)
        fix j' assume "j' < j0"
        then have "Suc j' < j" using j0 by simp
        with j(4) have "name_or_index ((q # ps) ! Suc j') (i + Suc j') \<noteq> nm" by blast
        then show "name_or_index (ps ! j') (Suc i + j') \<noteq> nm" by simp
      qed
      with j j0 show ?L by (intro exI [of _ j0]) simp
    qed
    finally show ?thesis .
  qed
qed

lemma find_participant_caller:
  "find_participant ps 0 nm = None \<longleftrightarrow> caller_unknown ps nm"
  by (simp add: find_participant_None caller_unknown_def)

lemma Union_inputs: "set (concat (map inputs ps)) = (\<Union>p \<in> set ps. set (inputs p))"
  by simp

lemma distinct_concat_disjoint:
  "distinct (concat xss) \<Longrightarrow> i < j \<Longrightarrow> j < length xss \<Longrightarrow> set (xss ! i) \<inter> set (xss ! j) = {}"
proof (induction xss arbitrary: i j)
  case Nil
  then show ?case by simp
next
  case (Cons xs xss)
  from Cons.prems(2) obtain j0 where j: "j = Suc j0" by (cases j) auto
  from Cons.prems(1) have d: "distinct (concat xss)" and dis: "set xs \<inter> set (concat xss) = {}"
    by simp_all
  show ?case
  proof (cases i)
    case 0
    from Cons.prems(3) j have "xss ! j0 \<in> set xss" by simp
    then have "set (xss ! j0) \<subseteq> set (concat xss)" by auto
    with dis 0 j show ?thesis by auto
  next
    case (Suc i0)
    with Cons.prems j have "i0 < j0" "j0 < length xss" by simp_all
    from Cons.IH [OF d this] Suc j show ?thesis by simp
  qed
qed

lemma claimed_by_several_listed_twice:
  assumes "claimed_by_several ps"
  shows "listed_twice ps"
proof -
  from assms obtain i j x where ij: "i < length ps" "j < length ps" "i \<noteq> j"
    and x: "x \<in> set (inputs (ps ! i))" "x \<in> set (inputs (ps ! j))"
    by (auto simp: claimed_by_several_def)
  show ?thesis
  proof (rule ccontr)
    assume "\<not> listed_twice ps"
    then have d: "distinct (concat (map inputs ps))" by (simp add: listed_twice_def)
    have "set (inputs (ps ! i)) \<inter> set (inputs (ps ! j)) = {}"
    proof (cases "i < j")
      case True
      with distinct_concat_disjoint [OF d, of i j] ij show ?thesis by simp
    next
      case False
      with ij have "j < i" by simp
      with distinct_concat_disjoint [OF d, of j i] ij show ?thesis by auto
    qed
    with x show False by auto
  qed
qed

lemmas exec_defs =
  init_def settle_def outcome_def captured_def listeners_of_def signal_aborted_def
  addEventListener_def removeEventListener_def wrapperFn_def onAbort_def push_def
  new_pop_def pop_def close_def isClosed_def newController_def abort_def stream_def
  set_stream_def resume_def stop_def Let_def QueueClosed_def Cancelled_def

section \<open>Closing the queue\<close>

text \<open>
  Claim C3. When \<^verbatim>\<open>close()\<close> is called on an open queue, every pending pop is rejected
  with the error \<^verbatim>\<open>Queue is closed\<close>, the buffer and both pending arrays become empty,
  \<^verbatim>\<open>isClosed()\<close> is true, and whatever is called afterwards, the buffer stays empty and
  no promise is fulfilled that was not fulfilled before the close: the buffered values
  are delivered to nobody. This holds for any number of buffered values and pending pops,
  in particular for the 3 buffered values and the 2 pending pops of scenario D.
\<close>

theorem close_rejects_and_discards:
  assumes "\<not> closed s"
  shows "(\<forall>p \<in> set (pendingRejects s).
            p < length (pops s) \<longrightarrow> outcome s p = Pending \<longrightarrow>
            outcome (close s) p = Rejected QueueClosed) \<and>
         messages (close s) = [] \<and> pendingResolves (close s) = [] \<and>
         pendingRejects (close s) = [] \<and> isClosed (close s) \<and>
         (\<forall>as. messages (run as (close s)) = [] \<and>
               (\<forall>q v. outcome (run as (close s)) q = Fulfilled v \<longrightarrow>
                      outcome s q = Fulfilled v))"
proof -
  have "outcome s q = Fulfilled v" if "outcome (run as (close s)) q = Fulfilled v" for as q v
  proof -
    from that have "outcome (close s) q = Fulfilled v"
      by (rule closed_run_fulfilled [rotated]) simp
    with assms show ?thesis by (simp add: outcome_close split: if_splits)
  qed
  with assms show ?thesis
    by (simp add: outcome_close close_open_fields isClosed_def closed_run_messages)
qed

theorem close_scenario_D:
  "\<not> closed scenario_D \<and> length (messages scenario_D) = 3 \<and>
   pendingResolves scenario_D = [0, 1] \<and> pendingRejects scenario_D = [0, 1] \<and>
   outcome scenario_D 0 = Pending \<and> outcome scenario_D 1 = Pending \<and>
   outcome (close scenario_D) 0 = Rejected QueueClosed \<and>
   outcome (close scenario_D) 1 = Rejected QueueClosed \<and>
   messages (close scenario_D) = [] \<and> isClosed (close scenario_D) \<and>
   messages (run [Pop None] (close scenario_D)) = [] \<and>
   (\<forall>v. outcome (run [Pop None] (close scenario_D)) 2 \<noteq> Fulfilled v)"
proof -
  have open_D: "\<not> closed scenario_D"
    by (simp add: scenario_D_def exec_defs)
  have pending: "pendingRejects scenario_D = [0, 1]" "pops scenario_D \<noteq> []"
    "length (pops scenario_D) = 2" "outcome scenario_D 0 = Pending"
    "outcome scenario_D 1 = Pending" "outcome scenario_D 2 = Pending"
    by (simp_all add: scenario_D_def exec_defs)
  have rest: "length (messages scenario_D) = 3" "pendingResolves scenario_D = [0, 1]"
    by (simp_all add: scenario_D_def exec_defs)
  from close_rejects_and_discards [OF open_D] pending rest open_D show ?thesis
    by (auto simp del: run.simps)
qed

text \<open>
  Claim C4. \<^verbatim>\<open>close()\<close> is idempotent: a second call returns the state of the first
  unchanged (the whole state: buffer, pending arrays, promises, signals), and
  \<^verbatim>\<open>isClosed()\<close> is true after the first call and after any calls that follow it.
\<close>

theorem close_idempotent:
  "close (close s) = close s \<and> isClosed (close s) \<and> isClosed (run as (close s))"
  by (simp add: isClosed_def closed_run)

text \<open>
  Claim C5. In any state that follows a call of \<^verbatim>\<open>close()\<close>, \<^verbatim>\<open>push(v)\<close> throws
  \<^verbatim>\<open>Queue is closed\<close> and leaves the state as it was, and \<^verbatim>\<open>pop\<close> returns a promise
  that is already rejected with \<^verbatim>\<open>Queue is closed\<close>; apart from that new promise the
  state is unchanged: no waiter is added to either pending array and no listener to any
  signal.
\<close>

theorem closed_queue_rejects:
  "let s = run as (close s0); (p, s') = pop sg s in
     push v s = (Some QueueClosed, s) \<and>
     outcome s' p = Rejected QueueClosed \<and>
     s' = s\<lparr>pops := pops s @ [\<lparr>promise = Rejected QueueClosed, abortSignal = sg\<rparr>]\<rparr> \<and>
     pendingResolves s' = pendingResolves s \<and> pendingRejects s' = pendingRejects s \<and>
     signals s' = signals s \<and> messages s' = messages s"
proof -
  have c: "closed (run as (close s0))" by (simp add: closed_run)
  show ?thesis
    by (simp add: Let_def pop_closed [OF c] push_closed [OF c] outcome_new_pop)
       (simp add: new_pop_def)
qed

section \<open>Delivery in push order\<close>

text \<open>
  On an open queue with no pending waiter, after the values \<open>vs\<close> are pushed, as many
  consecutive calls of \<^verbatim>\<open>pop\<close> as there are buffered entries return promises that are
  already fulfilled, in push order: first with what the buffer held before, then with
  \<open>vs\<close>. The signal arguments \<open>sgs\<close> of the pops are arbitrary: a pop that finds a
  buffered entry does not look at its signal.
\<close>

lemma pops_after_pushes:
  assumes "\<not> closed s" and "pendingResolves s = []"
    and "length sgs = length (messages s) + length vs"
  shows "let (ps, s') = pop_each sgs (push_all vs s) in
           map (outcome s') ps = map Fulfilled (messages s @ vs) \<and> messages s' = []"
proof -
  define ws where "ws = messages s @ vs"
  let ?s1 = "s\<lparr>messages := ws\<rparr>"
  let ?r = "pop_each sgs ?s1"
  have l: "length sgs = length ws" using assms(3) by (simp add: ws_def)
  have "\<not> closed ?s1" "messages ?s1 = ws @ []" using assms by simp_all
  from pop_each_buffered [OF this l]
  have each: "\<And>i. i < length ws \<Longrightarrow> outcome (snd ?r) (length (pops s) + i) = Fulfilled (ws ! i)"
    and empty: "messages (snd ?r) = []" by simp_all
  have "map (outcome (snd ?r)) (fst ?r) = map Fulfilled ws"
  proof (rule nth_equalityI)
    show "length (map (outcome (snd ?r)) (fst ?r)) = length (map Fulfilled ws)"
      using l by (simp add: fst_pop_each)
  next
    fix i assume "i < length (map (outcome (snd ?r)) (fst ?r))"
    then have i: "i < length ws" using l by (simp add: fst_pop_each)
    then have "i < length sgs" using l by simp
    then have "fst ?r ! i = length (pops s) + i" "i < length (fst ?r)"
      using fst_pop_each [of sgs ?s1] by simp_all
    with each [OF i] i show "map (outcome (snd ?r)) (fst ?r) ! i = map Fulfilled ws ! i"
      by simp
  qed
  with empty have "map (outcome (snd ?r)) (fst ?r) = map Fulfilled ws \<and> messages (snd ?r) = []"
    by simp
  moreover have "push_all vs s = ?s1"
    using assms(1,2) by (simp add: push_all_buffers ws_def)
  ultimately show ?thesis
    unfolding ws_def by (simp add: split_beta)
qed

text \<open>
  Claim C1 as stated fails: an open queue without pending waiters need not return the
  values just pushed. On the reachable queue that already holds 99, after \<^verbatim>\<open>push(1)\<close>
  one pop returns 99. On the reachable queue with a live stream and an empty buffer,
  after \<^verbatim>\<open>push(1)\<close> and \<^verbatim>\<open>push(2)\<close>, when the loop of the stream continues between
  the two pops, the first pop returns 1, the stream takes 2, and the second pop stays
  pending.
\<close>

theorem fifo_needs_empty_buffer:
  "reachable already_buffered \<and> \<not> closed already_buffered \<and>
   pendingResolves already_buffered = [] \<and>
   fst (pop_each [None] (push_all [1] already_buffered)) = [0] \<and>
   outcome (snd (pop_each [None] (push_all [1] already_buffered))) 0 = Fulfilled 99 \<and>
   map (outcome (snd (pop_each [None] (push_all [1] already_buffered))))
       (fst (pop_each [None] (push_all [1] already_buffered))) \<noteq> map Fulfilled [1] \<and>
   reachable live_stream \<and> \<not> closed live_stream \<and>
   pendingResolves live_stream = [] \<and> messages live_stream = [] \<and>
   outcome (run [Push 1, Push 2, Pop None, Resume 0, Pop None] live_stream) 1 = Fulfilled 1 \<and>
   outcome (run [Push 1, Push 2, Pop None, Resume 0, Pop None] live_stream) 3 = Pending \<and>
   dispatched (streams (run [Push 1, Push 2, Pop None, Resume 0, Pop None] live_stream) ! 0)
     = [5]"
proof -
  have r: "reachable already_buffered" "reachable live_stream"
    unfolding already_buffered_def live_stream_def
    by (intro reachable_run reachable_init)+
  have a: "\<not> closed already_buffered" "pendingResolves already_buffered = []"
    "fst (pop_each [None] (push_all [1] already_buffered)) = [0]"
    "outcome (snd (pop_each [None] (push_all [1] already_buffered))) 0 = Fulfilled 99"
    by (simp_all add: already_buffered_def exec_defs)
  have b: "\<not> closed live_stream" "pendingResolves live_stream = []"
    "messages live_stream = []"
    "outcome (run [Push 1, Push 2, Pop None, Resume 0, Pop None] live_stream) 1 = Fulfilled 1"
    "outcome (run [Push 1, Push 2, Pop None, Resume 0, Pop None] live_stream) 3 = Pending"
    "dispatched (streams (run [Push 1, Push 2, Pop None, Resume 0, Pop None] live_stream) ! 0)
       = [5]"
    by (simp_all add: live_stream_def exec_defs)
  from r a b show ?thesis by simp
qed

text \<open>
  Claim C1, amended (FIFO). On an open queue with no pending waiter and an empty buffer,
  after the values \<open>vs\<close> are pushed, the same number of calls of \<^verbatim>\<open>pop\<close>, made one
  after the other with nothing else done to the queue in between, return promises that
  are already fulfilled with \<open>vs\<close> in exactly that order, and the buffer is empty again.
\<close>

theorem fifo:
  assumes "\<not> closed s" and "pendingResolves s = []" and "messages s = []"
    and "length sgs = length vs"
  shows "let (ps, s') = pop_each sgs (push_all vs s) in
           map (outcome s') ps = map Fulfilled vs \<and> messages s' = []"
  using pops_after_pushes [of s sgs vs] assms by simp

theorem fifo_witness:
  "let (ps, s') = pop_each [None, None, None] (push_all [10, 20, 30 :: nat] init) in
     \<not> closed (init :: nat world) \<and> pendingResolves (init :: nat world) = [] \<and>
     messages (init :: nat world) = [] \<and> ps = [0, 1, 2] \<and>
     map (outcome s') ps = [Fulfilled 10, Fulfilled 20, Fulfilled 30]"
  using fifo [of "init :: nat world" "[None, None, None]" "[10, 20, 30]"]
  by (simp add: exec_defs)

section \<open>Buffer and waiters\<close>



section \<open>Cancellation\<close>



section \<open>The abort listener of a waiter\<close>

text \<open>
  Claim C7, evaluated on one pending pop that was given a signal. The pop registers its
  \<^verbatim>\<open>onAbort\<close> on the signal. When a push fulfils it, or when the signal fires, the
  listener is removed. When \<^verbatim>\<open>close()\<close> rejects it, the waiter leaves both pending
  arrays and its promise is rejected with \<^verbatim>\<open>Queue is closed\<close>, but the listener stays
  on the signal: \<^verbatim>\<open>close\<close> calls the bare \<^verbatim>\<open>reject\<close> of the promise, and only
  \<^verbatim>\<open>wrapperFn\<close> and \<^verbatim>\<open>onAbort\<close> call \<^verbatim>\<open>removeEventListener\<close>.
\<close>

theorem close_leaves_listener:
  "listeners_of one_waiter 0 = [0] \<and> outcome one_waiter 0 = Pending \<and>
   outcome (run [Push 7] one_waiter) 0 = Fulfilled 7 \<and>
   listeners_of (run [Push 7] one_waiter) 0 = [] \<and>
   outcome (run [Abort 0] one_waiter) 0 = Rejected Cancelled \<and>
   listeners_of (run [Abort 0] one_waiter) 0 = [] \<and>
   outcome (run [Close] one_waiter) 0 = Rejected QueueClosed \<and>
   pendingResolves (run [Close] one_waiter) = [] \<and>
   pendingRejects (run [Close] one_waiter) = [] \<and>
   listeners_of (run [Close] one_waiter) 0 = [0]"
  by (simp add: one_waiter_def exec_defs)

section \<open>The loop of a stream\<close>

text \<open>
  What the continuation of the loop of stream \<open>i\<close> does when the pop it awaited was
  rejected with an error \<open>e\<close>: the handler is not called and no pop is issued; the
  \<^verbatim>\<open>catch\<close> clause ends the loop without an error exactly when the message of \<open>e\<close> is
  \<^verbatim>\<open>Stream stopped\<close>, and throws \<open>e\<close> again otherwise. Either way the stream does
  nothing more, whatever runs afterwards.
\<close>

lemma resume_on_rejection:
  assumes "i < length (streams s)" and "loop (streams s ! i) = Awaiting p"
    and "outcome s p = Rejected e"
  shows "loop (streams (resume i s) ! i) = (if e = Cancelled then Ended else Failed e) \<and>
         (e = QueueClosed \<longrightarrow> loop (streams (resume i s) ! i) = Failed QueueClosed) \<and>
         dispatched (streams (resume i s) ! i) = dispatched (streams s ! i) \<and>
         pops (resume i s) = pops s \<and> messages (resume i s) = messages s \<and>
         pendingResolves (resume i s) = pendingResolves s \<and>
         (\<forall>as. i < length (streams (run as (resume i s))) \<and>
               streams (run as (resume i s)) ! i = streams (resume i s) ! i)"
proof -
  obtain m where e: "e = Error m" by (cases e)
  have r: "resume i s = set_stream i ((streams s ! i)\<lparr>loop := catch_clause e\<rparr>) s"
    using assms by (simp add: resume_def)
  have l: "loop (streams (resume i s) ! i) = catch_clause e"
    and d: "dispatched (streams (resume i s) ! i) = dispatched (streams s ! i)"
    and n: "i < length (streams (resume i s))"
    using assms(1) by (simp_all add: r set_stream_def)
  have c: "catch_clause e = (if e = Cancelled then Ended else Failed e)"
    by (simp add: e Cancelled_def)
  have q: "e = QueueClosed \<Longrightarrow> catch_clause e = Failed QueueClosed"
    by (simp add: QueueClosed_def)
  have "loop (streams (resume i s) ! i) = Ended \<or>
        (\<exists>e'. loop (streams (resume i s) ! i) = Failed e')"
    by (simp add: l c)
  note frozen = finished_run [OF n this]
  have l1: "loop (streams (resume i s) ! i) = (if e = Cancelled then Ended else Failed e)"
    using l c by simp
  have l2: "e = QueueClosed \<longrightarrow> loop (streams (resume i s) ! i) = Failed QueueClosed"
    using l q by simp
  have f: "pops (resume i s) = pops s" "messages (resume i s) = messages s"
    "pendingResolves (resume i s) = pendingResolves s"
    by (simp_all add: r)
  from l1 l2 d f frozen show ?thesis by blast
qed

text \<open>
  Claim C8, evaluated on a stream started on a new queue. When the queue is closed and
  the continuation of the loop runs, the pop it awaited was rejected with
  \<^verbatim>\<open>Queue is closed\<close>; the \<^verbatim>\<open>catch\<close> clause, which lets only \<^verbatim>\<open>Stream stopped\<close>
  pass, throws the error again, and the promise of \<^verbatim>\<open>loop()\<close>, which nobody holds, is
  rejected with it: the loop does not end silently. After \<^verbatim>\<open>stop()\<close> instead, the same
  continuation ends the loop silently.
\<close>

theorem stream_close_not_silent:
  "loop (streams stream_then_close ! 0) = Failed QueueClosed \<and>
   \<not> ended_silently stream_then_close 0 \<and> ended_silently stream_then_stop 0"
  by (simp add: stream_then_close_def stream_then_stop_def ended_silently_def exec_defs)

section \<open>What the validator rejects\<close>

text \<open>
  Claim C9 as stated fails in one direction. With a circuit whose only input is \<^verbatim>\<open>a\<close> and
  a single participant \<^verbatim>\<open>alice\<close> whose input list is \<^verbatim>\<open>['a', 'a']\<close>, called as
  \<^verbatim>\<open>alice\<close> with the input \<^verbatim>\<open>{a: 3}\<close>, none of the five conditions of the claim
  holds (no name is claimed by more than one participant, and all the sets agree), yet the
  function returns the error \<^verbatim>\<open>Duplicate input: a\<close>.
\<close>

theorem duplicate_within_one_participant:
  "checkSettingsValid only_a alice_twice ''alice'' [(''a'', 3 :: nat)]
     = Some (Error ''Duplicate input: a'') \<and>
   \<not> spec_rejects only_a alice_twice ''alice'' [(''a'', 3 :: nat)]"
  by (simp add: checkSettingsValid_def only_a_def alice_twice_def new_Set_def Set_add_def
        areSetsEqual_def name_or_index_def spec_rejects_def claimed_by_several_def
        inputs_differ_def output_unknown_def caller_unknown_def keys_differ_def)

text \<open>
  Claim C9, amended. \<^verbatim>\<open>checkSettingsValid\<close> returns an error if and only if at least one
  of these holds, and \<^verbatim>\<open>undefined\<close> otherwise: (1) an input name occurs more than once
  in the input lists of the participants taken together (claimed by two participants, or
  listed twice by one); (2) the union of the participants' input names differs from the
  circuit's input names; (3) some output name of a participant is not an output name of the
  circuit; (4) the caller's name matches no participant; (5) the keys of the supplied input
  differ as a set from the input names of the calling participant. Whenever one of the
  five conditions of the original claim holds, an error is returned. In scenario E, calling
  as \<^verbatim>\<open>alice\<close> with \<^verbatim>\<open>{a: 3}\<close> returns \<^verbatim>\<open>undefined\<close>, and with \<^verbatim>\<open>{}\<close> or
  \<^verbatim>\<open>{a: 3, x: 5}\<close> an error.
\<close>

theorem checkSettingsValid_rejects:
  "(checkSettingsValid circ ps nm input \<noteq> None \<longleftrightarrow>
      listed_twice ps \<or> inputs_differ circ ps \<or> output_unknown circ ps \<or>
      caller_unknown ps nm \<or> keys_differ ps nm input) \<and>
   (spec_rejects circ ps nm input \<longrightarrow> checkSettingsValid circ ps nm input \<noteq> None) \<and>
   checkSettingsValid aPlusB alice_and_bob ''alice'' [(''a'', 3 :: nat)] = None \<and>
   checkSettingsValid aPlusB alice_and_bob ''alice'' ([] :: (string \<times> nat) list) \<noteq> None \<and>
   checkSettingsValid aPlusB alice_and_bob ''alice'' [(''a'', 3 :: nat), (''x'', 5)] \<noteq> None"
proof -
  let ?ci = "new_Set (map fst (input_name_to_wire_index (info circ)))"
  let ?co = "new_Set (map fst (output_name_to_wire_index (info circ)))"
  have main: "checkSettingsValid circ ps nm input \<noteq> None \<longleftrightarrow>
      listed_twice ps \<or> inputs_differ circ ps \<or> output_unknown circ ps \<or>
      caller_unknown ps nm \<or> keys_differ ps nm input"
  proof (cases "collect_inputs ps []")
    case (Inl e)
    with collect_inputs_spec [of "[]" ps] have "listed_twice ps"
      by (simp add: listed_twice_def)
    with Inl show ?thesis by (simp add: checkSettingsValid_def)
  next
    case (Inr pin)
    with collect_inputs_spec [of "[]" ps]
    have nd: "\<not> listed_twice ps" and pin: "set pin = (\<Union>p \<in> set ps. set (inputs p))" "distinct pin"
      by (simp_all add: listed_twice_def)
    have eq1: "areSetsEqual pin ?ci \<longleftrightarrow> \<not> inputs_differ circ ps"
      using pin by (simp add: areSetsEqual_spec new_Set_spec inputs_differ_def)
    show ?thesis
    proof (cases "areSetsEqual pin ?ci")
      case False
      with eq1 Inr show ?thesis by (simp add: checkSettingsValid_def)
    next
      case True
      with eq1 have ni: "\<not> inputs_differ circ ps" by simp
      have out: "check_all_outputs ps ?co = None \<longleftrightarrow> \<not> output_unknown circ ps"
        by (auto simp: check_all_outputs_spec new_Set_spec output_unknown_def)
      show ?thesis
      proof (cases "check_all_outputs ps ?co")
        case (Some e)
        with out have "output_unknown circ ps" by simp
        with Some True Inr show ?thesis by (simp add: checkSettingsValid_def)
      next
        case None
        with out have no: "\<not> output_unknown circ ps" by simp
        show ?thesis
        proof (cases "find_participant ps 0 nm")
          case fNone: None
          then have "caller_unknown ps nm" by (simp add: find_participant_caller)
          with fNone None True Inr show ?thesis by (simp add: checkSettingsValid_def)
        next
          case (Some cp)
          then have nc: "\<not> caller_unknown ps nm"
            using find_participant_caller [of ps nm] by simp
          from Some obtain i where i: "i < length ps" "cp = ps ! i"
            "name_or_index (ps ! i) i = nm" "\<forall>j < i. name_or_index (ps ! j) j \<noteq> nm"
            by (auto simp: find_participant_Some)
          have uniq: "i' = i" if "i' < length ps" "name_or_index (ps ! i') i' = nm"
            "\<forall>j < i'. name_or_index (ps ! j) j \<noteq> nm" for i'
            using that i by (metis linorder_neqE_nat)
          have kd: "keys_differ ps nm input \<longleftrightarrow> set (map fst input) \<noteq> set (inputs cp)"
            using i uniq unfolding keys_differ_def by blast
          have eq2: "areSetsEqual (new_Set (map fst input)) (new_Set (inputs cp)) \<longleftrightarrow>
              \<not> keys_differ ps nm input"
            by (simp add: areSetsEqual_spec new_Set_spec kd)
          from Some None True Inr eq2 nd ni no nc show ?thesis
            by (simp add: checkSettingsValid_def)
        qed
      qed
    qed
  qed
  have spec: "spec_rejects circ ps nm input \<longrightarrow> checkSettingsValid circ ps nm input \<noteq> None"
    using main claimed_by_several_listed_twice [of ps] by (auto simp: spec_rejects_def)
  have E: "checkSettingsValid aPlusB alice_and_bob ''alice'' [(''a'', 3 :: nat)] = None"
    "checkSettingsValid aPlusB alice_and_bob ''alice'' ([] :: (string \<times> nat) list) \<noteq> None"
    "checkSettingsValid aPlusB alice_and_bob ''alice'' [(''a'', 3 :: nat), (''x'', 5)] \<noteq> None"
    by (simp_all add: checkSettingsValid_def aPlusB_def alice_and_bob_def new_Set_def
          Set_add_def areSetsEqual_def name_or_index_def)
  from main spec E show ?thesis by blast
qed

theorem checkSettingsValid_rejects_witness:
  "listed_twice alice_twice \<and>
   checkSettingsValid only_a alice_twice ''alice'' [(''a'', 3 :: nat)] \<noteq> None \<and>
   \<not> (listed_twice alice_and_bob \<or> inputs_differ aPlusB alice_and_bob \<or>
      output_unknown aPlusB alice_and_bob \<or> caller_unknown alice_and_bob ''alice'' \<or>
      keys_differ alice_and_bob ''alice'' [(''a'', 3 :: nat)])"
proof -
  have "listed_twice alice_twice" by (simp add: listed_twice_def alice_twice_def)
  with checkSettingsValid_rejects [of only_a alice_twice "''alice''" "[(''a'', 3 :: nat)]"]
    checkSettingsValid_rejects [of aPlusB alice_and_bob "''alice''" "[(''a'', 3 :: nat)]"]
  show ?thesis by blast
qed

end
